theory Spec2Isabelle
  imports Complex_Main "HOL-Library.Sublist" "HOL-Library.Multiset"
begin

section \<open>Python values and errors\<close>

text \<open>
  Every exception the modelled code can raise is a value of \<open>error\<close>; a function that may
  raise returns \<open>error + 'a\<close> with \<open>Inl\<close> for the exception. Python floats are modelled
  by exact reals (rounding is not modelled); numpy's \<open>nan\<close> is the separate value \<open>NaN\<close>.
\<close>

datatype error = ZeroDivisionError | AssertionError | IndexError | ValueError | RuntimeError

datatype npfloat = NaN | Num real

section \<open>Average precision at k: \<open>apk\<close> and \<open>mapk\<close>\<close>

text \<open>Python's slice \<open>xs[:k]\<close>: a negative \<open>k\<close> counts from the end.\<close>

definition slice_to :: "'a list \<Rightarrow> int \<Rightarrow> 'a list" where
  "slice_to xs k = (if 0 \<le> k then take (nat k) xs else take (nat (int (length xs) + k)) xs)"

text \<open>
  The loop \<open>for i, p in enumerate(predicted)\<close> of \<open>apk\<close>: \<open>i\<close> is the running index,
  the fourth argument the part of \<open>predicted\<close> still to visit, the pair the loop state
  \<open>(num_hits, score)\<close>.
\<close>

fun apk_loop :: "'a list \<Rightarrow> 'a list \<Rightarrow> nat \<Rightarrow> 'a list \<Rightarrow> real \<times> real \<Rightarrow> real \<times> real" where
  "apk_loop actual predicted i [] (num_hits, score) = (num_hits, score)"
| "apk_loop actual predicted i (p # ps) (num_hits, score) =
     (if p \<in> set actual \<and> p \<notin> set (take i predicted)
      then apk_loop actual predicted (Suc i) ps
             (num_hits + 1, score + (num_hits + 1) / (real i + 1))
      else apk_loop actual predicted (Suc i) ps (num_hits, score))"

definition apk :: "'a list \<Rightarrow> 'a list \<Rightarrow> int \<Rightarrow> error + real" where
  "apk actual predicted k =
     (if actual = [] then Inr 0
      else
        let predicted' = (if int (length predicted) > k then slice_to predicted k else predicted);
            (num_hits, score) = apk_loop actual predicted' 0 predicted' (0, 0);
            d = min (int (length actual)) k
        in if d = 0 then Inl ZeroDivisionError else Inr (score / real_of_int d))"

text \<open>
  The list comprehension \<open>[apk(a, p, k) for a, p in zip(actual, predicted)]\<close>: the
  first exception raised by \<open>apk\<close> ends it.
\<close>

fun apk_all :: "('a list \<times> 'a list) list \<Rightarrow> int \<Rightarrow> error + real list" where
  "apk_all [] k = Inr []"
| "apk_all ((a, p) # rest) k =
     (case apk a p k of
        Inl e \<Rightarrow> Inl e
      | Inr s \<Rightarrow> (case apk_all rest k of Inl e \<Rightarrow> Inl e | Inr ss \<Rightarrow> Inr (s # ss)))"

text \<open>\<open>np.mean\<close> of a list of floats; of the empty list it is \<open>nan\<close> (with a warning).\<close>

definition np_mean :: "real list \<Rightarrow> npfloat" where
  "np_mean xs = (if xs = [] then NaN else Num (sum_list xs / real (length xs)))"

definition mapk :: "'a list list \<Rightarrow> 'a list list \<Rightarrow> int \<Rightarrow> error + npfloat" where
  "mapk actual predicted k =
     (case apk_all (zip actual predicted) k of Inl e \<Rightarrow> Inl e | Inr ss \<Rightarrow> Inr (np_mean ss))"

section \<open>The dataset class: \<open>create_example\<close>\<close>

text \<open>
  A row of the data frame, with the four columns the code reads. The tokenizer is the
  external library's: its end-of-sequence token and id are fields, and the call
  \<open>tokenizer(text)['input_ids']\<close> is the field \<open>tokenizer_call\<close>.
\<close>

record example =
  prompt :: string
  answer_text :: string
  or_recall_texts :: "string list"
  data_id :: int

record tokenizer =
  eos_token :: string
  eos_token_id :: int
  tokenizer_call :: "string \<Rightarrow> int list"

text \<open>\<open>string.ascii_lowercase\<close>, \<open>str.upper\<close> and \<open>str.lower\<close> (on ASCII letters).\<close>

definition ascii_lowercase :: string where
  "ascii_lowercase = ''abcdefghijklmnopqrstuvwxyz''"

definition char_upper :: "char \<Rightarrow> char" where
  "char_upper c =
     (let n = (of_char c :: nat) in if 97 \<le> n \<and> n \<le> 122 then char_of (n - 32) else c)"

definition char_lower :: "char \<Rightarrow> char" where
  "char_lower c =
     (let n = (of_char c :: nat) in if 65 \<le> n \<and> n \<le> 90 then char_of (n + 32) else c)"

definition str_upper :: "string \<Rightarrow> string" where
  "str_upper s = map char_upper s"

definition str_lower :: "string \<Rightarrow> string" where
  "str_lower s = map char_lower s"

definition label_name :: string where
  "label_name = str_upper ascii_lowercase @ str_lower (str_upper ascii_lowercase)"

text \<open>
  \<open>str.replace(old, new)\<close>: the occurrences of \<open>old\<close> are replaced from left to right
  without overlap; \<open>skip\<close> counts the characters of a replaced occurrence still to drop.
  For the empty \<open>old\<close>, Python puts \<open>new\<close> before every character and at the end.
\<close>

fun replace_from :: "string \<Rightarrow> string \<Rightarrow> nat \<Rightarrow> string \<Rightarrow> string" where
  "replace_from old new skip [] = []"
| "replace_from old new skip (c # cs) =
     (if 0 < skip then replace_from old new (skip - 1) cs
      else if prefix old (c # cs) then new @ replace_from old new (length old - 1) cs
      else c # replace_from old new 0 cs)"

definition str_replace :: "string \<Rightarrow> string \<Rightarrow> string \<Rightarrow> string" where
  "str_replace old new s =
     (if old = [] then new @ concat (map (\<lambda>c. c # new) s) else replace_from old new 0 s)"

text \<open>
  The first part of \<open>create_example\<close>: the presented options \<open>input_texts\<close>.
  \<open>random.shuffle\<close> is the library's: it is the parameter \<open>shuffle\<close>, which takes the
  state of the random generator and the list and returns the shuffled list and the new state.
\<close>

definition input_texts_of ::
  "('g \<Rightarrow> string list \<Rightarrow> string list \<times> 'g) \<Rightarrow> bool \<Rightarrow> example \<Rightarrow> 'g \<Rightarrow> string list \<times> 'g" where
  "input_texts_of shuffle is_test data g =
     (let real_answer_text = answer_text data;
          recall_texts_or = take 50 (or_recall_texts data);
          num = 25
      in if \<not> is_test then
           let recall_texts = filter (\<lambda>text. text \<noteq> real_answer_text) recall_texts_or;
               (recall_texts, g1) = shuffle g recall_texts;
               input_texts = take (num - 1) recall_texts @ [real_answer_text]
           in shuffle g1 input_texts
         else (take num recall_texts_or, g))"

text \<open>
  What \<open>random.shuffle\<close> promises: the result is a rearrangement of the list.
  \<open>rev_shuffle\<close> is one such function, with a counter as the state of the generator.
\<close>

definition is_shuffle :: "('g \<Rightarrow> string list \<Rightarrow> string list \<times> 'g) \<Rightarrow> bool" where
  "is_shuffle shuffle = (\<forall>g xs. mset (fst (shuffle g xs)) = mset xs)"

definition rev_shuffle :: "nat \<Rightarrow> string list \<Rightarrow> string list \<times> nat" where
  "rev_shuffle g xs = (rev xs, Suc g)"

text \<open>
  \<open>losing_shuffle\<close> is not a shuffle: it loses the last entry of the list. It stands for
  a generator that breaks the promise, the one case in which the assertion of
  \<open>create_example\<close> can fail.
\<close>

definition losing_shuffle :: "nat \<Rightarrow> string list \<Rightarrow> string list \<times> nat" where
  "losing_shuffle g xs = (butlast xs, Suc g)"

text \<open>
  The loop \<open>for idx, text in enumerate(input_texts)\<close>: the state is \<open>(label, label_str)\<close>;
  \<open>label_name[idx]\<close> raises IndexError beyond the 52 letters.
\<close>

definition label_str_0 :: string where
  "label_str_0 = CHR 0x0A # ''Candidate distractor Analyses:''"

definition answer_instruction :: string where
  "answer_instruction = ''###Answer###:The option with the correct distractor Analyse is''"

fun options_loop :: "string \<Rightarrow> nat \<Rightarrow> string list \<Rightarrow> int \<times> string \<Rightarrow> error + int \<times> string" where
  "options_loop real_answer_text idx [] (label, label_str) = Inr (label, label_str)"
| "options_loop real_answer_text idx (text # texts) (label, label_str) =
     (let label' = (if text = real_answer_text then int idx else label)
      in if idx < length label_name
         then options_loop real_answer_text (Suc idx) texts
                (label', label_str @ [label_name ! idx] @ ''.'' @ text @ [CHR 0x0A])
         else Inl IndexError)"

text \<open>
  The rest of \<open>create_example\<close>, from \<open>label = 999\<close> on, as a function of the presented
  options; it returns \<open>(input_ids, label, data_id)\<close>.
\<close>

definition example_of_options ::
  "tokenizer \<Rightarrow> bool \<Rightarrow> example \<Rightarrow> string list \<Rightarrow> error + int list \<times> int \<times> int" where
  "example_of_options tok is_test data input_texts =
     (case options_loop (answer_text data) 0 input_texts (999, label_str_0) of
        Inl e \<Rightarrow> Inl e
      | Inr (label, label_str) \<Rightarrow>
          if \<not> is_test \<and> \<not> label \<noteq> 999 then Inl AssertionError
          else
            let text = prompt data @ label_str @ answer_instruction;
                text = str_replace (eos_token tok) ''<end>'' text;
                input_ids = tokenizer_call tok text @ [eos_token_id tok]
            in Inr (input_ids, label, data_id data))"

definition create_example ::
  "('g \<Rightarrow> string list \<Rightarrow> string list \<times> 'g) \<Rightarrow> tokenizer \<Rightarrow> bool \<Rightarrow> example \<Rightarrow> 'g \<Rightarrow>
     (error + int list \<times> int \<times> int) \<times> 'g" where
  "create_example shuffle tok is_test data g =
     (let (input_texts, g') = input_texts_of shuffle is_test data g
      in (example_of_options tok is_test data input_texts, g'))"

text \<open>
  Concrete inputs for the examples below: a tokenizer that maps every character to its
  code, a row with three candidates, a row whose candidates do not hold the answer and a
  row with twenty-six candidates.
\<close>

definition byte_tokenizer :: tokenizer where
  "byte_tokenizer =
     \<lparr>eos_token = ''</s>'', eos_token_id = 2, tokenizer_call = map (\<lambda>c. int (of_char c))\<rparr>"

definition row3 :: example where
  "row3 = \<lparr>prompt = ''Q?'', answer_text = ''b'', or_recall_texts = [''a'', ''b'', ''c''],
            data_id = 7\<rparr>"

definition row_miss :: example where
  "row_miss = \<lparr>prompt = ''Q?'', answer_text = ''z'', or_recall_texts = [''a'', ''c''],
               data_id = 9\<rparr>"

definition row26 :: example where
  "row26 = \<lparr>prompt = ''Q?'', answer_text = ''c'',
             or_recall_texts = map (\<lambda>c. [c]) ascii_lowercase, data_id = 8\<rparr>"

section \<open>The dataset class: \<open>collate_fn\<close>\<close>

text \<open>An item of the dataset (the dictionary \<open>__getitem__\<close> returns) and a batch.\<close>

record tokenized =
  input_ids :: "int list"
  labels :: int
  data_ids :: int

record batch =
  batch_input_ids :: "int list list"
  batch_labels :: "int list"
  batch_data_ids :: "int list"

text \<open>
  The inner function \<open>padding\<close>: \<open>max\<close> of an empty sequence raises ValueError; \<open>res\<close> is
  the matrix filled with \<open>val\<close>, and the loop overwrites the first \<open>seq_len\<close> entries of
  each row.
\<close>

definition padding :: "int list list \<Rightarrow> int \<Rightarrow> error + int list list" where
  "padding inputs val =
     (if inputs = [] then Inl ValueError
      else
        let batch_size = length inputs;
            max_len = Max (set (map length inputs));
            res = replicate batch_size (replicate max_len val)
        in Inr (map (\<lambda>(i, res_data).
                  let seq_len = length (inputs ! i)
                  in inputs ! i @ drop seq_len res_data) (enumerate 0 res)))"

text \<open>\<open>torch.stack\<close> of scalar tensors; it raises on the empty list.\<close>

definition stack :: "int list \<Rightarrow> error + int list" where
  "stack xs = (if xs = [] then Inl RuntimeError else Inr xs)"

definition collate_fn :: "tokenizer \<Rightarrow> tokenized list \<Rightarrow> error + batch" where
  "collate_fn tok instances =
     (case padding (map input_ids instances) (eos_token_id tok) of
        Inl e \<Rightarrow> Inl e
      | Inr ids \<Rightarrow>
          (case stack (map labels instances) of
             Inl e \<Rightarrow> Inl e
           | Inr ls \<Rightarrow>
               (case stack (map data_ids instances) of
                  Inl e \<Rightarrow> Inl e
                | Inr ds \<Rightarrow>
                    Inr \<lparr>batch_input_ids = ids, batch_labels = ls, batch_data_ids = ds\<rparr>)))"

section \<open>The position of the logits: \<open>sequence_lengths\<close>\<close>





section \<open>The ranking evaluator: \<open>evaluation_dist\<close> after the gather\<close>

text \<open>
  \<open>np.argsort\<close> is the library's and the parameter \<open>argsort\<close>: the order it gives to equal
  entries is not fixed. \<open>is_argsort\<close> is what it promises: a permutation of the indices
  along which the entries do not decrease. \<open>stable_argsort\<close> is one such function.
\<close>

definition is_argsort :: "real list \<Rightarrow> nat list \<Rightarrow> bool" where
  "is_argsort xs js =
     (mset js = mset [0..<length xs] \<and> sorted (map (\<lambda>j. xs ! j) js))"

definition stable_argsort :: "real list \<Rightarrow> nat list" where
  "stable_argsort xs = sort_key (\<lambda>j. xs ! j) [0..<length xs]"

text \<open>
  \<open>DataFrame.drop_duplicates('data_id')\<close> keeps the first row of every \<open>data_id\<close>; \<open>seen\<close>
  holds the identifiers met so far. A row is \<open>(data_id, predict, label)\<close>.
\<close>

type_synonym row = "int \<times> int list \<times> int"

fun drop_duplicates_from :: "int list \<Rightarrow> row list \<Rightarrow> row list" where
  "drop_duplicates_from seen [] = []"
| "drop_duplicates_from seen ((i, p, l) # rows) =
     (if i \<in> set seen then drop_duplicates_from seen rows
      else (i, p, l) # drop_duplicates_from (i # seen) rows)"

definition drop_duplicates :: "row list \<Rightarrow> row list" where
  "drop_duplicates df = drop_duplicates_from [] df"

definition neg :: "npfloat \<Rightarrow> npfloat" where
  "neg x = (case x of NaN \<Rightarrow> NaN | Num r \<Rightarrow> Num (- r))"

text \<open>
  The part of \<open>evaluation_dist\<close> after \<open>all_gather\<close>, from the gathered scores
  (one row of logits per example), labels and identifiers. The data frame
  needs columns of one length (ValueError otherwise).
\<close>

definition evaluation_dist ::
  "(real list \<Rightarrow> nat list) \<Rightarrow> real list list \<Rightarrow> int list \<Rightarrow> int list \<Rightarrow> error + npfloat" where
  "evaluation_dist argsort gathered_outputs gathered_labels gathered_data_ids =
     (let predicts = map (\<lambda>p. map int (argsort (map uminus p))) gathered_outputs
      in if length gathered_data_ids \<noteq> length predicts \<or>
            length gathered_labels \<noteq> length predicts
         then Inl ValueError
         else
           let df = zip gathered_data_ids (zip predicts gathered_labels);
               df = drop_duplicates df
           in (case mapk (map (\<lambda>(i, p, l). [l]) df) (map (\<lambda>(i, p, l). p) df) 25 of
                 Inl e \<Rightarrow> Inl e
               | Inr loss \<Rightarrow> Inr (neg loss)))"

section \<open>The checkpoint saver: \<open>save_model\<close>\<close>

text \<open>
  \<open>sub in s\<close> on strings, and \<open>os.path.join\<close> of two components. What \<open>save_model\<close> does
  to the file system is the list of its writes, in order.
\<close>

fun str_in :: "string \<Rightarrow> string \<Rightarrow> bool" where
  "str_in sub [] = (sub = [])"
| "str_in sub (c # cs) = (prefix sub (c # cs) \<or> str_in sub cs)"

definition path_join :: "string \<Rightarrow> string \<Rightarrow> string" where
  "path_join a b =
     (if b \<noteq> [] \<and> hd b = CHR ''/'' then b
      else if a = [] \<or> last a = CHR ''/'' then a @ b
      else a @ ''/'' @ b)"

record args =
  output_dir :: string
  global_rank :: int

datatype 'v file_write =
  Tokenizer_save_pretrained string
| Makedirs string
| Torch_save string "(string \<times> 'v) list"

text \<open>\<open>final_d[k] = v\<close> on a dictionary kept as the list of its items in insertion order.\<close>

fun dict_set :: "string \<Rightarrow> 'v \<Rightarrow> (string \<times> 'v) list \<Rightarrow> (string \<times> 'v) list" where
  "dict_set k v [] = [(k, v)]"
| "dict_set k v ((k', v') # d) = (if k' = k then (k, v) # d else (k', v') # dict_set k v d)"

fun final_d_loop :: "(string \<times> 'v) list \<Rightarrow> (string \<times> 'v) list \<Rightarrow> (string \<times> 'v) list" where
  "final_d_loop [] final_d = final_d"
| "final_d_loop ((k, v) # items) final_d =
     (if str_in ''lora'' k \<or> str_in ''score'' k
      then final_d_loop items (dict_set k v final_d)
      else final_d_loop items final_d)"

definition save_model :: "args \<Rightarrow> (string \<times> 'v) list \<Rightarrow> string option \<Rightarrow> 'v file_write list" where
  "save_model args save_dict sub_fold =
     (case sub_fold of
        None \<Rightarrow> []
      | Some sub \<Rightarrow>
          let dir = path_join (output_dir args) sub
          in Tokenizer_save_pretrained dir #
             (if global_rank args = 0
              then [Makedirs dir,
                    Torch_save (path_join dir ''adapter.bin'') (final_d_loop save_dict [])]
              else []))"

section \<open>Properties of \<open>apk\<close> and \<open>mapk\<close>\<close>

lemma apk_loop_skip:
  "x \<notin> set as \<Longrightarrow>
   apk_loop [x] q i (as @ rest) st = apk_loop [x] q (i + length as) rest st"
proof (induction as arbitrary: i st)
  case Nil
  then show ?case by simp
next
  case (Cons a as)
  obtain h s where st: "st = (h, s)" by (cases st)
  from Cons.prems have "a \<noteq> x" and "x \<notin> set as" by auto
  with Cons.IH [of "Suc i" "(h, s)"] show ?case by (simp add: st)
qed

lemma apk_loop_seen:
  "x \<in> set (take i q) \<Longrightarrow> apk_loop [x] q i ps st = st"
proof (induction ps arbitrary: i st)
  case Nil
  then show ?case by (cases st) simp
next
  case (Cons p ps)
  obtain h s where st: "st = (h, s)" by (cases st)
  from Cons.prems have "x \<in> set (take (Suc i) q)"
    using set_take_subset_set_take [of i "Suc i" q] by auto
  with Cons.IH [of "Suc i" "(h, s)"] Cons.prems show ?case by (auto simp: st)
qed

lemma apk_loop_absent:
  assumes "x \<notin> set q"
  shows "apk_loop [x] q 0 q (0, 0) = (0, 0)"
  using apk_loop_skip [of x q q 0 "[]" "(0, 0)"] assms by simp

lemma apk_loop_first_hit:
  assumes r: "r < length q" and hit: "q ! r = x" and first: "x \<notin> set (take r q)"
  shows "apk_loop [x] q 0 q (0, 0) = (1, 1 / (real r + 1))"
proof -
  have split: "q = take r q @ x # drop (Suc r) q"
    using id_take_nth_drop [OF r] hit by simp
  have len: "length (take r q) = r" using r by simp
  have seen: "x \<in> set (take (Suc r) q)"
    using r hit by (auto simp: take_Suc_conv_app_nth)
  have "apk_loop [x] q 0 q (0, 0) = apk_loop [x] q 0 (take r q @ x # drop (Suc r) q) (0, 0)"
    using split by simp
  also have "\<dots> = apk_loop [x] q r (x # drop (Suc r) q) (0, 0)"
    using apk_loop_skip [OF first, of q 0 "x # drop (Suc r) q" "(0, 0)"] len by simp
  also have "\<dots> = apk_loop [x] q (Suc r) (drop (Suc r) q) (1, 1 / (real r + 1))"
    using first by simp
  also have "\<dots> = (1, 1 / (real r + 1))"
    by (rule apk_loop_seen [OF seen])
  finally show ?thesis .
qed

lemma apk_cut:
  "0 \<le> k \<Longrightarrow>
   (if int (length p) > k then slice_to p k else p) = take (nat k) p"
  by (auto simp: slice_to_def)

lemma apk_single_hit:
  assumes k: "1 \<le> k" and r: "r < length p" "int r < k"
    and hit: "p ! r = x" and first: "x \<notin> set (take r p)"
  shows "apk [x] p k = Inr (1 / (real r + 1))"
proof -
  let ?q = "take (nat k) p"
  have rq: "r < length ?q" using r k by simp
  have hq: "?q ! r = x" using r hit by simp
  have "min r (nat k) = r" using r by simp
  then have "take r ?q = take r p" by (simp add: min.commute)
  then have fq: "x \<notin> set (take r ?q)" using first by simp
  have cut: "(if int (length p) > k then slice_to p k else p) = ?q"
    using apk_cut [of k p] k by simp
  have d: "min (int (length [x])) k = 1" using k by simp
  show ?thesis
    unfolding apk_def cut d Let_def
    using apk_loop_first_hit [OF rq hq fq] by simp
qed

lemma apk_single_miss:
  assumes k: "1 \<le> k" and miss: "x \<notin> set (take (nat k) p)"
  shows "apk [x] p k = Inr 0"
proof -
  let ?q = "take (nat k) p"
  have cut: "(if int (length p) > k then slice_to p k else p) = ?q"
    using apk_cut [of k p] k by simp
  have d: "min (int (length [x])) k = 1" using k by simp
  show ?thesis
    unfolding apk_def cut d Let_def
    using apk_loop_absent [OF miss] by simp
qed

lemma apk_no_error:
  assumes "1 \<le> k"
  shows "\<exists>s. apk a p k = Inr s"
proof (cases "a = []")
  case True
  then show ?thesis by (simp add: apk_def)
next
  case False
  then have "length a \<noteq> 0" by simp
  then have "min (int (length a)) k \<noteq> 0" using assms by (simp add: min_def)
  then show ?thesis using False
    by (simp add: apk_def Let_def split: prod.splits)
qed

lemma apk_all_scores:
  assumes "1 \<le> k"
  shows "\<exists>ss. apk_all pairs k = Inr ss \<and> map Inr ss = map (\<lambda>(a, p). apk a p k) pairs"
proof (induction pairs)
  case Nil
  then show ?case by simp
next
  case (Cons ap pairs)
  obtain a p where ap: "ap = (a, p)" by (cases ap)
  obtain s where s: "apk a p k = Inr s" using apk_no_error [OF assms] by blast
  from Cons.IH obtain ss where
    ss: "apk_all pairs k = Inr ss" "map Inr ss = map (\<lambda>(a, p). apk a p k) pairs" by blast
  show ?case using s ss by (simp add: ap)
qed

section \<open>Properties of \<open>create_example\<close>\<close>

lemma length_label_name: "length label_name = 52"
  by code_simp

lemma label_name_literal:
  "label_name = ''ABCDEFGHIJKLMNOPQRSTUVWXYZabcdefghijklmnopqrstuvwxyz''"
  by code_simp

lemma options_loop_result:
  "i + length texts \<le> length label_name \<Longrightarrow>
   options_loop a i texts (l, s) =
     Inr (fold (\<lambda>(idx, text) l. if text = a then int idx else l) (enumerate i texts) l,
          s @ concat (map (\<lambda>(idx, text). [label_name ! idx] @ ''.'' @ text @ [CHR 0x0A])
                 (enumerate i texts)))"
proof (induction texts arbitrary: i l s)
  case Nil
  then show ?case by simp
next
  case (Cons t ts)
  from Cons.prems have i: "i < length label_name" and rest: "Suc i + length ts \<le> length label_name"
    by simp_all
  show ?case
    using i Cons.IH [OF rest] by (simp add: Let_def)
qed

lemma label_fold_absent:
  "a \<notin> set texts \<Longrightarrow>
   fold (\<lambda>(idx, text) l. if text = a then int idx else l) (enumerate i texts) l = l"
  by (induction texts arbitrary: i l) auto

lemma label_fold_present:
  "a \<in> set texts \<Longrightarrow>
   \<exists>j < length texts.
     fold (\<lambda>(idx, text) l. if text = a then int idx else l) (enumerate i texts) l = int (i + j) \<and>
     texts ! j = a \<and> (\<forall>j'. j < j' \<and> j' < length texts \<longrightarrow> texts ! j' \<noteq> a)"
proof (induction texts arbitrary: i l)
  case Nil
  then show ?case by simp
next
  case (Cons t ts)
  let ?f = "\<lambda>(idx, text) l. if text = a then int idx else l"
  show ?case
  proof (cases "a \<in> set ts")
    case True
    from Cons.IH [OF True, of "Suc i" "if t = a then int i else l"]
    obtain j where j: "j < length ts"
      "fold ?f (enumerate (Suc i) ts) (if t = a then int i else l) = int (Suc i + j)"
      "ts ! j = a" "\<forall>j'. j < j' \<and> j' < length ts \<longrightarrow> ts ! j' \<noteq> a"
      by blast
    have later: "\<forall>j'. Suc j < j' \<and> j' < length (t # ts) \<longrightarrow> (t # ts) ! j' \<noteq> a"
    proof (intro allI impI)
      fix j' assume h: "Suc j < j' \<and> j' < length (t # ts)"
      then obtain m where m: "j' = Suc m" by (cases j') auto
      with h j(4) show "(t # ts) ! j' \<noteq> a" by simp
    qed
    show ?thesis
      by (rule exI [of _ "Suc j"]) (use j later in simp)
  next
    case False
    with Cons.prems have ta: "t = a" by simp
    have later: "\<forall>j'. 0 < j' \<and> j' < length (t # ts) \<longrightarrow> (t # ts) ! j' \<noteq> a"
    proof (intro allI impI)
      fix j' assume h: "0 < j' \<and> j' < length (t # ts)"
      then obtain m where m: "j' = Suc m" by (cases j') auto
      with h False show "(t # ts) ! j' \<noteq> a" by (auto simp: in_set_conv_nth)
    qed
    show ?thesis
      by (rule exI [of _ 0]) (use ta later label_fold_absent [OF False] in simp)
  qed
qed

lemma is_shuffle_rev: "is_shuffle rev_shuffle"
  by (simp add: is_shuffle_def rev_shuffle_def)

lemma mset_take_subseteq: "mset (take n xs) \<subseteq># mset xs"
proof -
  have "mset xs = mset (take n xs) + mset (drop n xs)"
    by (metis append_take_drop_id mset_append)
  then show ?thesis by simp
qed

lemma input_texts_test:
  "input_texts_of shuffle True data g = (take 25 (or_recall_texts data), g)"
  by (simp add: input_texts_of_def Let_def min_def)

lemma input_texts_train_eq:
  "input_texts_of shuffle False data g =
     shuffle (snd (shuffle g (filter (\<lambda>text. text \<noteq> answer_text data) (take 50 (or_recall_texts data)))))
       (take 24 (fst (shuffle g (filter (\<lambda>text. text \<noteq> answer_text data)
                                   (take 50 (or_recall_texts data))))) @ [answer_text data])"
  by (simp add: input_texts_of_def Let_def split: prod.splits)

lemma input_texts_train:
  fixes data :: example and shuffle :: "'g \<Rightarrow> string list \<Rightarrow> string list \<times> 'g" and g :: 'g
  assumes sh: "is_shuffle shuffle"
  defines "pool \<equiv> filter (\<lambda>text. text \<noteq> answer_text data) (take 50 (or_recall_texts data))"
  defines "opts \<equiv> fst (input_texts_of shuffle False data g)"
  shows "\<exists>kept. mset kept \<subseteq># mset pool \<and> length kept = min 24 (length pool) \<and>
           mset opts = add_mset (answer_text data) (mset kept)"
    and "length opts = min 24 (length pool) + 1"
    and "count (mset opts) (answer_text data) = 1"
proof -
  let ?a = "answer_text data"
  let ?r1 = "fst (shuffle g pool)"
  let ?kept = "take 24 ?r1"
  have r1: "mset ?r1 = mset pool" using sh by (simp add: is_shuffle_def)
  then have len_r1: "length ?r1 = length pool" by (rule mset_eq_length)
  have opts: "mset opts = add_mset ?a (mset ?kept)"
    using sh unfolding opts_def input_texts_train_eq pool_def [symmetric]
    by (simp add: is_shuffle_def)
  have sub: "mset ?kept \<subseteq># mset pool"
    using mset_take_subseteq [of 24 ?r1] r1 by simp
  have len: "length ?kept = min 24 (length pool)" using len_r1 by (simp add: min.commute)
  show "\<exists>kept. mset kept \<subseteq># mset pool \<and> length kept = min 24 (length pool) \<and>
           mset opts = add_mset ?a (mset kept)"
    using sub len opts by blast
  have "length opts = size (mset opts)" by simp
  also have "\<dots> = Suc (length ?kept)" unfolding opts by simp
  finally show "length opts = min 24 (length pool) + 1" using len by simp
  have "?a \<notin> set pool" by (simp add: pool_def)
  then have "?a \<notin># mset ?kept" using sub by (metis mset_subset_eqD set_mset_mset)
  then have "count (mset ?kept) ?a = 0" by (simp add: count_eq_zero_iff)
  then show "count (mset opts) ?a = 1" unfolding opts by simp
qed

lemma input_texts_length_le:
  assumes "is_test \<or> is_shuffle shuffle"
  shows "length (fst (input_texts_of shuffle is_test data g)) \<le> 25"
proof (cases is_test)
  case True
  then show ?thesis by (simp add: input_texts_test)
next
  case False
  with assms have "is_shuffle shuffle" by simp
  from input_texts_train(2) [OF this, of data g] False show ?thesis by simp
qed

lemma label_fold_sentinel:
  assumes "length texts < 999"
  shows "fold (\<lambda>(idx, text) l. if text = a then int idx else l) (enumerate 0 texts) 999 = 999
           \<longleftrightarrow> a \<notin> set texts"
proof (cases "a \<in> set texts")
  case True
  from label_fold_present [OF True, of 0 999] assms True show ?thesis by auto
next
  case False
  then show ?thesis by (simp add: label_fold_absent)
qed

lemma example_of_options_eq:
  assumes "length input_texts \<le> 52"
  shows "example_of_options tok is_test data input_texts =
     (if \<not> is_test \<and> answer_text data \<notin> set input_texts then Inl AssertionError
      else Inr (tokenizer_call tok
                  (str_replace (eos_token tok) ''<end>''
                     (prompt data @ label_str_0 @
                      concat (map (\<lambda>(idx, text). [label_name ! idx] @ ''.'' @ text @ [CHR 0x0A])
                                (enumerate 0 input_texts)) @
                      answer_instruction)) @ [eos_token_id tok],
                fold (\<lambda>(idx, text) l. if text = answer_text data then int idx else l)
                  (enumerate 0 input_texts) 999,
                data_id data))"
proof -
  have len: "0 + length input_texts \<le> length label_name"
    using assms by (simp add: length_label_name)
  have lt: "length input_texts < 999" using assms by simp
  show ?thesis
    unfolding example_of_options_def options_loop_result [OF len]
    using label_fold_sentinel [OF lt, of "answer_text data"]
    by (simp add: Let_def)
qed

lemma create_example_eq:
  "create_example shuffle tok is_test data g =
     (example_of_options tok is_test data (fst (input_texts_of shuffle is_test data g)),
      snd (input_texts_of shuffle is_test data g))"
  by (simp add: create_example_def split: prod.splits)

lemma label_fold_index:
  assumes lt: "length texts < 999" and mem: "a \<in> set texts"
  defines "l \<equiv> fold (\<lambda>(idx, text) l. if text = a then int idx else l) (enumerate 0 texts) 999"
  shows "l \<noteq> 999 \<and> 0 \<le> l \<and> nat l < length texts \<and> texts ! nat l = a \<and>
         (\<forall>j. nat l < j \<and> j < length texts \<longrightarrow> texts ! j \<noteq> a)"
proof -
  from label_fold_present [OF mem, of 0 999] obtain j where
    j: "j < length texts" "l = int (0 + j)" "texts ! j = a"
       "\<forall>j'. j < j' \<and> j' < length texts \<longrightarrow> texts ! j' \<noteq> a"
    unfolding l_def by blast
  from j lt show ?thesis by simp
qed

lemma str_replace_absent:
  assumes "old \<noteq> []" and "\<not> sublist old s"
  shows "str_replace old new s = s"
proof -
  have "\<not> sublist old s \<Longrightarrow> replace_from old new 0 s = s"
  proof (induction s)
    case Nil
    then show ?case by simp
  next
    case (Cons c cs)
    then have "\<not> prefix old (c # cs)" and "\<not> sublist old cs"
      by (simp_all add: sublist_Cons_right)
    with Cons.IH show ?case by simp
  qed
  with assms show ?thesis by (simp add: str_replace_def)
qed

lemma example_of_options_label:
  assumes "length input_texts \<le> 52" and "is_test \<or> answer_text data \<in> set input_texts"
  shows "\<exists>ids label. example_of_options tok is_test data input_texts = Inr (ids, label, data_id data) \<and>
           (answer_text data \<notin> set input_texts \<longrightarrow> label = 999) \<and>
           (answer_text data \<in> set input_texts \<longrightarrow>
              label \<noteq> 999 \<and> 0 \<le> label \<and> nat label < length input_texts \<and>
              input_texts ! nat label = answer_text data \<and>
              (\<forall>j. nat label < j \<and> j < length input_texts \<longrightarrow>
                   input_texts ! j \<noteq> answer_text data))"
proof -
  let ?a = "answer_text data"
  let ?l = "fold (\<lambda>(idx, text) l. if text = ?a then int idx else l) (enumerate 0 input_texts) 999"
  have lt: "length input_texts < 999" using assms(1) by simp
  have absent: "?a \<notin> set input_texts \<longrightarrow> ?l = 999"
    by (simp add: label_fold_absent)
  have present: "?a \<in> set input_texts \<longrightarrow>
      ?l \<noteq> 999 \<and> 0 \<le> ?l \<and> nat ?l < length input_texts \<and> input_texts ! nat ?l = ?a \<and>
      (\<forall>j. nat ?l < j \<and> j < length input_texts \<longrightarrow> input_texts ! j \<noteq> ?a)"
    using label_fold_index [OF lt] by blast
  show ?thesis
    unfolding example_of_options_eq [OF assms(1)]
    using absent present assms(2) by auto
qed

lemma input_texts_train_mem:
  assumes "is_shuffle shuffle"
  shows "answer_text data \<in> set (fst (input_texts_of shuffle False data g))"
proof -
  have "count (mset (fst (input_texts_of shuffle False data g))) (answer_text data) = 1"
    by (rule input_texts_train(3) [OF assms])
  then have "count (mset (fst (input_texts_of shuffle False data g))) (answer_text data) \<noteq> 0"
    by simp
  then show ?thesis
    by (metis count_mset_0_iff)
qed

section \<open>Properties of \<open>collate_fn\<close>\<close>

lemma padding_rows:
  assumes "inputs \<noteq> []"
  shows "padding inputs val =
     Inr (map (\<lambda>xs. xs @ replicate (Max (set (map length inputs)) - length xs) val) inputs)"
proof -
  let ?M = "Max (set (map length inputs))"
  let ?res = "replicate (length inputs) (replicate ?M val)"
  have "map (\<lambda>(i, res_data). inputs ! i @ drop (length (inputs ! i)) res_data) (enumerate 0 ?res) =
        map (\<lambda>xs. xs @ replicate (?M - length xs) val) inputs"
    by (rule nth_equalityI) (simp_all add: nth_enumerate_eq)
  with assms show ?thesis by (simp add: padding_def Let_def)
qed

lemma padded_row_length:
  assumes "xs \<in> set inputs"
  shows "length (xs @ replicate (Max (set (map length inputs)) - length xs) val) =
         Max (set (map length inputs))"
proof -
  have "length xs \<le> Max (set (map length inputs))"
    using assms by (intro Max_ge) auto
  then show ?thesis by simp
qed

section \<open>Properties of \<open>sequence_lengths\<close>\<close>






lemma first_index_less:
  "x \<in> set xs \<Longrightarrow> length (takeWhile (\<lambda>t. t \<noteq> x) xs) < length xs"
  by (induction xs) auto



section \<open>Properties of \<open>save_model\<close>\<close>

lemma str_in_sublist: "str_in sub s \<longleftrightarrow> sublist sub s"
  by (induction s) (simp_all add: sublist_Cons_right)

lemma dict_set_new:
  "k \<notin> fst ` set d \<Longrightarrow> dict_set k v d = d @ [(k, v)]"
  by (induction d) auto

lemma final_d_loop_filter:
  assumes "distinct (map fst items)" and "fst ` set items \<inter> fst ` set final_d = {}"
  shows "final_d_loop items final_d =
     final_d @ filter (\<lambda>(k, v). sublist ''lora'' k \<or> sublist ''score'' k) items"
  using assms
proof (induction items arbitrary: final_d)
  case Nil
  then show ?case by simp
next
  case (Cons kv items)
  obtain k v where kv: "kv = (k, v)" by (cases kv)
  from Cons.prems have d: "distinct (map fst items)" and knew: "k \<notin> fst ` set final_d"
    and kfresh: "k \<notin> fst ` set items"
    and disj: "fst ` set items \<inter> fst ` set final_d = {}"
    by (auto simp: kv)
  show ?case
  proof (cases "sublist ''lora'' k \<or> sublist ''score'' k")
    case True
    have disj': "fst ` set items \<inter> fst ` set (final_d @ [(k, v)]) = {}"
      using disj kfresh by auto
    from Cons.IH [OF d disj'] True knew show ?thesis
      by (simp add: kv str_in_sublist dict_set_new)
  next
    case False
    from Cons.IH [OF d disj] False show ?thesis
      by (simp add: kv str_in_sublist)
  qed
qed

section \<open>Properties of \<open>evaluation_dist\<close>\<close>

lemma is_argsort_stable: "is_argsort xs (stable_argsort xs)"
  by (simp add: is_argsort_def stable_argsort_def)

lemma drop_duplicates_from_eq:
  "drop_duplicates_from seen rows =
     map (\<lambda>j. rows ! j)
       (filter (\<lambda>j. fst (rows ! j) \<notin> set seen \<union> fst ` set (take j rows)) [0..<length rows])"
proof (induction rows arbitrary: seen)
  case Nil
  then show ?case by simp
next
  case (Cons row rows)
  obtain i p l where row: "row = (i, p, l)" by (cases row)
  have upt: "[0..<length (row # rows)] = 0 # map Suc [0..<length rows]"
    by (simp add: upt_conv_Cons map_Suc_upt del: upt_Suc)
  show ?case
  proof (cases "i \<in> set seen")
    case True
    then have same: "\<And>x Q. (fst (rows ! x) \<notin> set seen \<and> fst (rows ! x) \<noteq> i \<and> Q) =
        (fst (rows ! x) \<notin> set seen \<and> Q)"
      by auto
    from True Cons.IH [of seen] show ?thesis
      unfolding upt by (simp add: row filter_map comp_def same)
  next
    case False
    have comm: "\<And>x Q. (fst (rows ! x) \<notin> set seen \<and> fst (rows ! x) \<noteq> i \<and> Q) =
        (fst (rows ! x) \<noteq> i \<and> fst (rows ! x) \<notin> set seen \<and> Q)"
      by auto
    from False Cons.IH [of "i # seen"] show ?thesis
      unfolding upt by (simp add: row filter_map comp_def comm)
  qed
qed

lemma drop_duplicates_eq:
  "drop_duplicates rows =
     map (\<lambda>j. rows ! j)
       (filter (\<lambda>j. fst (rows ! j) \<notin> fst ` set (take j rows)) [0..<length rows])"
  by (simp add: drop_duplicates_def drop_duplicates_from_eq)

lemma first_index_in_take:
  assumes "x \<in> set (take n xs)"
  shows "length (takeWhile (\<lambda>t. t \<noteq> x) xs) < n"
proof (rule ccontr)
  assume "\<not> length (takeWhile (\<lambda>t. t \<noteq> x) xs) < n"
  then have "n \<le> length (takeWhile (\<lambda>t. t \<noteq> x) xs)" by simp
  then have "set (take n xs) \<subseteq> set (take (length (takeWhile (\<lambda>t. t \<noteq> x) xs)) xs)"
    by (rule set_take_subset_set_take)
  then have "x \<in> set (takeWhile (\<lambda>t. t \<noteq> x) xs)"
    using assms by (auto simp: takeWhile_eq_take [symmetric])
  then show False by (auto dest: set_takeWhileD)
qed

lemma apk_single_closed:
  assumes k: "1 \<le> k"
  shows "apk [x] p k =
     Inr (if x \<in> set (take (nat k) p)
          then 1 / (real (length (takeWhile (\<lambda>y. y \<noteq> x) p)) + 1) else 0)"
proof (cases "x \<in> set (take (nat k) p)")
  case False
  then show ?thesis using apk_single_miss [OF k, of x p] by simp
next
  case True
  let ?r = "length (takeWhile (\<lambda>y. y \<noteq> x) p)"
  from True have mem: "x \<in> set p" by (auto dest: in_set_takeD)
  have r1: "?r < length p" by (rule first_index_less [OF mem])
  have "?r < nat k" by (rule first_index_in_take [OF True])
  then have r2: "int ?r < k" by simp
  have hit: "p ! ?r = x" using nth_length_takeWhile [OF r1] by simp
  have first: "x \<notin> set (take ?r p)"
    using set_takeWhileD [of x "\<lambda>y. y \<noteq> x" p]
    by (auto simp: takeWhile_eq_take [symmetric])
  from apk_single_hit [OF k r1 r2 hit first] True show ?thesis by simp
qed

lemma apk_all_rows:
  "apk_all (zip (map (\<lambda>(i, r, l). [l]) df) (map (\<lambda>(i, r, l). r) df)) 25 =
     Inr (map (\<lambda>(i, r, l). if l \<in> set (take 25 r)
                              then 1 / (real (length (takeWhile (\<lambda>x. x \<noteq> l) r)) + 1) else 0) df)"
proof (induction df)
  case Nil
  then show ?case by simp
next
  case (Cons row df)
  obtain i r l where row: "row = (i, r, l)" by (cases row)
  have k: "(1::int) \<le> 25" by simp
  from apk_single_closed [OF k, of l r] Cons.IH show ?case
    by (simp add: row)
qed

lemma mapk_rows:
  "mapk (map (\<lambda>(i, r, l). [l]) df) (map (\<lambda>(i, r, l). r) df) 25 =
     Inr (np_mean (map (\<lambda>(i, r, l). if l \<in> set (take 25 r)
                              then 1 / (real (length (takeWhile (\<lambda>x. x \<noteq> l) r)) + 1) else 0) df))"
  by (simp add: mapk_def apk_all_rows)

lemma argsort_descending:
  fixes p :: "real list"
  assumes "is_argsort (map uminus p) js"
  shows "mset js = mset [0..<length p]"
    and "sorted_wrt (\<ge>) (map (\<lambda>j. p ! j) js)"
    and "distinct p \<Longrightarrow> sorted_wrt (>) (map (\<lambda>j. p ! j) js)"
proof -
  from assms have m: "mset js = mset [0..<length p]"
    and s: "sorted (map (\<lambda>j. map uminus p ! j) js)"
    by (simp_all add: is_argsort_def)
  show "mset js = mset [0..<length p]" by (rule m)
  from m have in_range: "\<And>j. j \<in> set js \<Longrightarrow> j < length p"
    using mset_eq_setD by fastforce
  from m have dj: "distinct js"
    using mset_eq_imp_distinct_iff [of js "[0..<length p]"] by simp
  have nth: "\<And>a b. a < b \<Longrightarrow> b < length js \<Longrightarrow> p ! (js ! a) \<ge> p ! (js ! b)"
  proof -
    fix a b assume ab: "a < b" "b < length js"
    then have "map (\<lambda>j. map uminus p ! j) js ! a \<le> map (\<lambda>j. map uminus p ! j) js ! b"
      using s by (simp add: sorted_iff_nth_mono)
    moreover have "js ! a < length p" "js ! b < length p"
      using ab in_range by simp_all
    ultimately show "p ! (js ! a) \<ge> p ! (js ! b)" using ab by simp
  qed
  show "sorted_wrt (\<ge>) (map (\<lambda>j. p ! j) js)"
    using nth by (simp add: sorted_wrt_iff_nth_less)
  show "sorted_wrt (>) (map (\<lambda>j. p ! j) js)" if dp: "distinct p"
  proof -
    have "\<And>a b. a < b \<Longrightarrow> b < length js \<Longrightarrow> p ! (js ! a) > p ! (js ! b)"
    proof -
      fix a b assume ab: "a < b" "b < length js"
      then have "js ! a \<noteq> js ! b"
        using dj by (simp add: distinct_conv_nth)
      moreover have "js ! a < length p" "js ! b < length p"
        using ab in_range by simp_all
      ultimately have "p ! (js ! a) \<noteq> p ! (js ! b)"
        using dp by (simp add: distinct_conv_nth)
      with nth [OF ab] show "p ! (js ! a) > p ! (js ! b)" by simp
    qed
    then show ?thesis by (simp add: sorted_wrt_iff_nth_less)
  qed
qed

section \<open>The claims\<close>

text \<open>
  Claim C1, for a rank cutoff \<open>k \<ge> 1\<close>: \<open>mapk\<close> is the arithmetic mean of the \<open>apk\<close>
  scores of the zipped pairs (numpy's \<open>nan\<close> when there is no pair); and for one relevant
  item \<open>x\<close> and a duplicate-free prediction list \<open>p\<close>, \<open>apk [x] p k\<close> is \<open>1 / (r + 1)\<close>
  when \<open>x\<close> is at the 0-based position \<open>r < k\<close> of \<open>p\<close>, and \<open>0\<close> when \<open>x\<close> is
  not among the first \<open>k\<close> predictions.
\<close>

theorem mapk_closed_form:
  assumes "1 \<le> k"
  shows "(\<exists>ss. map Inr ss = map (\<lambda>(a, p). apk a p k) (zip actual predicted) \<and>
            mapk actual predicted k =
              Inr (if ss = [] then NaN else Num (sum_list ss / real (length ss)))) \<and>
         (distinct p \<and> r < length p \<and> int r < k \<and> p ! r = x \<longrightarrow>
            apk [x] p k = Inr (1 / (real r + 1))) \<and>
         (x \<notin> set (take (nat k) p) \<longrightarrow> apk [x] p k = Inr 0)"
proof (intro conjI impI)
  obtain ss where ss: "apk_all (zip actual predicted) k = Inr ss"
      "map Inr ss = map (\<lambda>(a, p). apk a p k) (zip actual predicted)"
    using apk_all_scores [OF assms] by blast
  then show "\<exists>ss. map Inr ss = map (\<lambda>(a, p). apk a p k) (zip actual predicted) \<and>
      mapk actual predicted k =
        Inr (if ss = [] then NaN else Num (sum_list ss / real (length ss)))"
    by (auto simp: mapk_def np_mean_def)
next
  assume h: "distinct p \<and> r < length p \<and> int r < k \<and> p ! r = x"
  then have "x \<notin> set (take r p)"
    by (auto simp: in_set_conv_nth distinct_conv_nth)
  with h show "apk [x] p k = Inr (1 / (real r + 1))"
    using apk_single_hit [OF assms, of r p x] by simp
next
  assume "x \<notin> set (take (nat k) p)"
  then show "apk [x] p k = Inr 0" by (rule apk_single_miss [OF assms])
qed

theorem mapk_closed_form_witness:
  "(1::int) \<le> 25 \<and>
   mapk [[1], [2::int]] [[1, 2, 3], [1, 2, 3]] 25 = Inr (Num (3 / 4)) \<and>
   apk [2::int] [1, 2, 3] 25 = Inr (1 / 2) \<and>
   apk [7::int] [1, 2, 3] 25 = Inr 0"
proof -
  have k: "(1::int) \<le> 25" by simp
  have a1: "apk [1::int] [1, 2, 3] 25 = Inr 1"
    using mapk_closed_form [OF k, of "[] :: int list list" "[]" "[1, 2, 3]" 0 "1::int"] by simp
  have a2: "apk [2::int] [1, 2, 3] 25 = Inr (1 / 2)"
    using mapk_closed_form [OF k, of "[] :: int list list" "[]" "[1, 2, 3]" 1 "2::int"] by simp
  have a3: "apk [7::int] [1, 2, 3] 25 = Inr 0"
    using mapk_closed_form [OF k, of "[] :: int list list" "[]" "[1, 2, 3]" 0 "7::int"] by simp
  have "\<exists>ss. map Inr ss = [apk [1::int] [1, 2, 3] 25, apk [2::int] [1, 2, 3] 25] \<and>
          mapk [[1], [2::int]] [[1, 2, 3], [1, 2, 3]] 25 =
            Inr (if ss = [] then NaN else Num (sum_list ss / real (length ss)))"
    using mapk_closed_form [OF k, of "[[1], [2::int]]" "[[1, 2, 3], [1, 2, 3]]"
        "[] :: int list" 0 0]
    by simp
  then obtain ss where ss: "map Inr ss = [apk [1::int] [1, 2, 3] 25, apk [2::int] [1, 2, 3] 25]"
    and m: "mapk [[1], [2::int]] [[1, 2, 3], [1, 2, 3]] 25 =
              Inr (if ss = [] then NaN else Num (sum_list ss / real (length ss)))"
    by (elim exE conjE)
  from ss have "ss = [1, 1 / 2]"
    unfolding a1 a2 by (auto simp: map_eq_Cons_conv)
  with m have "mapk [[1], [2::int]] [[1, 2, 3], [1, 2, 3]] 25 = Inr (Num (3 / 4))"
    by simp
  with k a2 a3 show ?thesis by simp
qed

theorem apk_cutoff_zero_counterexample:
  "(1::int) \<notin> set (take (nat 0) [2]) \<and> apk [1::int] [2] 0 = Inl ZeroDivisionError"
  by (simp add: apk_def slice_to_def)

text \<open>
  Claim C2, with the size the code gives: for a training row (\<open>is_test\<close> false) the
  candidates equal to \<open>answer_text\<close> are removed from the first 50 recall texts, the rest
  is shuffled, its first 24 are kept, \<open>answer_text\<close> is appended and the result is shuffled
  again. The options are the kept candidates and the answer, which occurs once; their
  number is \<open>min 24 n + 1\<close> for \<open>n\<close> remaining candidates, so 25 when at least 24 remain.
  For a test row the options are the first 25 recall texts in their order.
\<close>

theorem input_texts_of_options:
  assumes "is_shuffle shuffle"
  shows "(let a = answer_text data;
              pool = filter (\<lambda>text. text \<noteq> a) (take 50 (or_recall_texts data));
              recall_texts = fst (shuffle g pool);
              g1 = snd (shuffle g pool);
              opts = fst (input_texts_of shuffle False data g)
          in input_texts_of shuffle False data g = shuffle g1 (take 24 recall_texts @ [a]) \<and>
             mset recall_texts = mset pool \<and>
             mset opts = add_mset a (mset (take 24 recall_texts)) \<and>
             length opts = min 24 (length pool) + 1 \<and>
             count (mset opts) a = 1) \<and>
         input_texts_of shuffle True data g = (take 25 (or_recall_texts data), g)"
proof -
  let ?a = "answer_text data"
  let ?pool = "filter (\<lambda>text. text \<noteq> ?a) (take 50 (or_recall_texts data))"
  let ?r1 = "fst (shuffle g ?pool)"
  let ?g1 = "snd (shuffle g ?pool)"
  let ?opts = "fst (input_texts_of shuffle False data g)"
  have eq: "input_texts_of shuffle False data g = shuffle ?g1 (take 24 ?r1 @ [?a])"
    by (rule input_texts_train_eq)
  have r1: "mset ?r1 = mset ?pool"
    using assms unfolding is_shuffle_def by blast
  have "mset (fst (shuffle ?g1 (take 24 ?r1 @ [?a]))) = mset (take 24 ?r1 @ [?a])"
    using assms unfolding is_shuffle_def by blast
  then have m: "mset ?opts = add_mset ?a (mset (take 24 ?r1))"
    unfolding eq by simp
  have len: "length ?opts = min 24 (length ?pool) + 1"
    by (rule input_texts_train(2) [OF assms])
  have cnt: "count (mset ?opts) ?a = 1"
    by (rule input_texts_train(3) [OF assms])
  have tst: "input_texts_of shuffle True data g = (take 25 (or_recall_texts data), g)"
    by (rule input_texts_test)
  show ?thesis
    unfolding Let_def using eq r1 m len cnt tst by blast
qed


theorem input_texts_of_options_witness:
  "is_shuffle rev_shuffle \<and>
   length (fst (input_texts_of rev_shuffle False row26 0)) = 25 \<and>
   count (mset (fst (input_texts_of rev_shuffle False row26 0))) (answer_text row26) = 1 \<and>
   input_texts_of rev_shuffle True row26 0 = (take 25 (or_recall_texts row26), 0)"
proof -
  note T = input_texts_of_options [OF is_shuffle_rev, of row26 0, unfolded Let_def]
  have pool: "length (filter (\<lambda>text. text \<noteq> answer_text row26)
                        (take 50 (or_recall_texts row26))) = 25"
    by (simp add: row26_def ascii_lowercase_def)
  have len: "length (fst (input_texts_of rev_shuffle False row26 0)) = 25"
    using T [THEN conjunct1, THEN conjunct2, THEN conjunct2, THEN conjunct2, THEN conjunct1]
    unfolding pool by simp
  note cnt = T [THEN conjunct1, THEN conjunct2, THEN conjunct2, THEN conjunct2, THEN conjunct2]
  note tst = T [THEN conjunct2]
  show ?thesis
    by (intro conjI is_shuffle_rev len cnt tst)
qed

theorem input_texts_short_pool_counterexample:
  "input_texts_of rev_shuffle False row3 0 = ([''b'', ''a'', ''c''], 2) \<and>
   length (fst (input_texts_of rev_shuffle False row3 0)) \<noteq> 25"
  by (simp add: input_texts_of_def row3_def rev_shuffle_def Let_def)

text \<open>
  Claim C3, as the code has it: for a test row (\<open>is_test\<close> true) \<open>create_example\<close> returns
  the label 999 only when none of the 25 presented options equals \<open>answer_text\<close>;
  otherwise the label is the position of the last presented option equal to it. The loop
  that sets the label runs for test rows as for training rows, and \<open>evaluation_dist\<close>
  scores the test rows against this label.
\<close>

theorem test_label_is_position:
  "\<exists>ids label.
     create_example shuffle tok True data g = (Inr (ids, label, data_id data), g) \<and>
     (answer_text data \<notin> set (take 25 (or_recall_texts data)) \<longrightarrow> label = 999) \<and>
     (answer_text data \<in> set (take 25 (or_recall_texts data)) \<longrightarrow>
        label \<noteq> 999 \<and> 0 \<le> label \<and> nat label < length (take 25 (or_recall_texts data)) \<and>
        take 25 (or_recall_texts data) ! nat label = answer_text data \<and>
        (\<forall>j. nat label < j \<and> j < length (take 25 (or_recall_texts data)) \<longrightarrow>
             take 25 (or_recall_texts data) ! j \<noteq> answer_text data))"
proof -
  define opts where "opts = take 25 (or_recall_texts data)"
  have len: "length opts \<le> 52" by (simp add: opts_def)
  have ce: "create_example shuffle tok True data g = (example_of_options tok True data opts, g)"
    by (simp add: create_example_eq input_texts_test opts_def)
  from example_of_options_label [OF len, of True data tok]
  show ?thesis unfolding ce opts_def [symmetric] by simp
qed

theorem test_label_is_position_witness:
  "answer_text row3 \<in> set (take 25 (or_recall_texts row3)) \<and>
   (case fst (create_example rev_shuffle byte_tokenizer True row3 0) of
      Inr (ids, label, did) \<Rightarrow> label = 1 | Inl e \<Rightarrow> False) \<and>
   answer_text row_miss \<notin> set (take 25 (or_recall_texts row_miss)) \<and>
   (case fst (create_example rev_shuffle byte_tokenizer True row_miss 0) of
      Inr (ids, label, did) \<Rightarrow> label = 999 | Inl e \<Rightarrow> False)"
proof -
  have opts3: "take 25 (or_recall_texts row3) = [''a'', ''b'', ''c'']"
    and a3: "answer_text row3 = ''b''"
    by (simp_all add: row3_def)
  have optsm: "take 25 (or_recall_texts row_miss) = [''a'', ''c'']"
    and am: "answer_text row_miss = ''z''"
    by (simp_all add: row_miss_def)
  from test_label_is_position [of rev_shuffle byte_tokenizer row3 0]
  obtain ids label where
    r: "create_example rev_shuffle byte_tokenizer True row3 0 = (Inr (ids, label, data_id row3), 0)"
    and p: "0 \<le> label" "nat label < 3" "[''a'', ''b'', ''c''] ! nat label = ''b''"
    unfolding opts3 a3 by auto
  from p(2,3) have "nat label = 1"
    by (cases "nat label = 0"; cases "nat label = 1"; cases "nat label = 2") auto
  with p(1) have l3: "label = 1" by simp
  from test_label_is_position [of rev_shuffle byte_tokenizer row_miss 0]
  obtain ids' label' where
    r': "create_example rev_shuffle byte_tokenizer True row_miss 0 =
           (Inr (ids', label', data_id row_miss), 0)"
    and p': "label' = 999"
    unfolding optsm am by auto
  show ?thesis
    unfolding opts3 a3 optsm am r r' using l3 p' by simp
qed

theorem test_label_counterexample:
  "map_sum id (fst \<circ> snd) (fst (create_example rev_shuffle byte_tokenizer True row3 0)) =
     Inr 1"
  by code_simp

text \<open>
  Claim C5, on \<open>create_example\<close> itself: for a training row (\<open>is_test\<close> false) whose
  presented options are at most 52 (the number of letters), \<open>create_example\<close> fails with
  an assertion error exactly if no presented option equals \<open>answer_text\<close>, that is exactly
  if the label is still 999 after the loop; otherwise it returns the example with the
  label the loop has set. For a test row (\<open>is_test\<close> true) there is no such check: the
  example is returned, with the label 999 when the answer is not among the options.
  The theorem holds for every function in the place of \<open>random.shuffle\<close>; for one that
  rearranges its list the options hold the answer, and the assertion does not fail.
\<close>

theorem create_example_assertion_iff:
  assumes "length (fst (input_texts_of shuffle False data g)) \<le> 52"
  shows "(fst (create_example shuffle tok False data g) = Inl AssertionError \<longleftrightarrow>
            answer_text data \<notin> set (fst (input_texts_of shuffle False data g))) \<and>
         (\<exists>label label_str.
            options_loop (answer_text data) 0 (fst (input_texts_of shuffle False data g))
              (999, label_str_0) = Inr (label, label_str) \<and>
            (label = 999 \<longleftrightarrow>
               answer_text data \<notin> set (fst (input_texts_of shuffle False data g))) \<and>
            (fst (create_example shuffle tok False data g) = Inl AssertionError \<longleftrightarrow>
               label = 999) \<and>
            (label = 999 \<or>
             (\<exists>ids. fst (create_example shuffle tok False data g) =
                      Inr (ids, label, data_id data)))) \<and>
         (\<exists>ids label.
            create_example shuffle tok True data g = (Inr (ids, label, data_id data), g) \<and>
            (label = 999 \<longleftrightarrow> answer_text data \<notin> set (take 25 (or_recall_texts data))))"
proof -
  let ?a = "answer_text data"
  define opts where "opts = fst (input_texts_of shuffle False data g)"
  have le: "length opts \<le> 52" using assms by (simp add: opts_def)
  have len: "0 + length opts \<le> length label_name"
    using le by (simp add: length_label_name)
  have lt: "length opts < 999" using le by simp
  note sent = label_fold_sentinel [OF lt, of ?a]
  have ce: "fst (create_example shuffle tok False data g) =
      example_of_options tok False data opts"
    by (simp add: create_example_eq opts_def)
  have train: "fst (create_example shuffle tok False data g) = Inl AssertionError \<longleftrightarrow>
      ?a \<notin> set opts"
    unfolding ce example_of_options_eq [OF le] by simp
  have loop: "\<exists>label label_str.
      options_loop ?a 0 opts (999, label_str_0) = Inr (label, label_str) \<and>
      (label = 999 \<longleftrightarrow> ?a \<notin> set opts) \<and>
      (fst (create_example shuffle tok False data g) = Inl AssertionError \<longleftrightarrow> label = 999) \<and>
      (label = 999 \<or>
       (\<exists>ids. fst (create_example shuffle tok False data g) = Inr (ids, label, data_id data)))"
    unfolding options_loop_result [OF len] train
    unfolding ce example_of_options_eq [OF le]
    using sent by auto
  define topts where "topts = take 25 (or_recall_texts data)"
  have tle: "length topts \<le> 52" by (simp add: topts_def)
  have tce: "create_example shuffle tok True data g =
      (example_of_options tok True data topts, g)"
    by (simp add: create_example_eq input_texts_test topts_def)
  from example_of_options_label [OF tle, of True data tok]
  have test: "\<exists>ids label.
      create_example shuffle tok True data g = (Inr (ids, label, data_id data), g) \<and>
      (label = 999 \<longleftrightarrow> ?a \<notin> set topts)"
    unfolding tce by auto
  from train loop test show ?thesis
    unfolding opts_def topts_def by blast
qed


theorem create_example_assertion_iff_witness:
  "length (fst (input_texts_of rev_shuffle False row3 0)) \<le> 52 \<and>
   answer_text row3 \<in> set (fst (input_texts_of rev_shuffle False row3 0)) \<and>
   fst (create_example rev_shuffle byte_tokenizer False row3 0) \<noteq> Inl AssertionError \<and>
   length (fst (input_texts_of losing_shuffle False row3 0)) \<le> 52 \<and>
   answer_text row3 \<notin> set (fst (input_texts_of losing_shuffle False row3 0)) \<and>
   fst (create_example losing_shuffle byte_tokenizer False row3 0) = Inl AssertionError \<and>
   answer_text row_miss \<notin> set (take 25 (or_recall_texts row_miss)) \<and>
   map_sum id (fst \<circ> snd) (fst (create_example rev_shuffle byte_tokenizer True row_miss 0)) =
     Inr 999"
proof -
  have o1: "fst (input_texts_of rev_shuffle False row3 0) = [''b'', ''a'', ''c'']"
    by (simp add: input_texts_of_def row3_def rev_shuffle_def Let_def)
  have o2: "fst (input_texts_of losing_shuffle False row3 0) = [''a'']"
    by (simp add: input_texts_of_def row3_def losing_shuffle_def Let_def)
  have a: "answer_text row3 = ''b''" by (simp add: row3_def)
  have m: "answer_text row_miss \<notin> set (take 25 (or_recall_texts row_miss))"
    by (simp add: row_miss_def)
  have l1: "length (fst (input_texts_of rev_shuffle False row3 0)) \<le> 52"
    and l2: "length (fst (input_texts_of losing_shuffle False row3 0)) \<le> 52"
    by (simp_all add: o1 o2)
  from create_example_assertion_iff [OF l1, of byte_tokenizer]
  have t1: "fst (create_example rev_shuffle byte_tokenizer False row3 0) \<noteq> Inl AssertionError"
    unfolding o1 a by simp
  from create_example_assertion_iff [OF l2, of byte_tokenizer]
  have t2: "fst (create_example losing_shuffle byte_tokenizer False row3 0) = Inl AssertionError"
    unfolding o2 a by simp
  have l3: "length (fst (input_texts_of rev_shuffle False row_miss 0)) \<le> 52"
    by (simp add: input_texts_of_def row_miss_def rev_shuffle_def Let_def)
  from create_example_assertion_iff [OF l3, of byte_tokenizer] m
  obtain ids label where
    "create_example rev_shuffle byte_tokenizer True row_miss 0 =
       (Inr (ids, label, data_id row_miss), 0)" and "label = 999"
    by auto
  then have t3: "map_sum id (fst \<circ> snd)
      (fst (create_example rev_shuffle byte_tokenizer True row_miss 0)) = Inr 999"
    by simp
  show ?thesis using l1 l2 t1 t2 t3 m by (simp add: o1 o2 a)
qed

text \<open>
  Claim C10: for a training row (\<open>is_test\<close> false), whenever \<open>random.shuffle\<close> rearranges
  its list, the assertion of \<open>create_example\<close> never fails: the candidates equal to
  \<open>answer_text\<close> are filtered out before \<open>answer_text\<close> is appended, so exactly one
  presented option equals it, the label is its position, and the example is returned.
\<close>

theorem training_assertion_never_fails:
  assumes "is_shuffle shuffle"
  shows "\<exists>ids label.
           fst (create_example shuffle tok False data g) = Inr (ids, label, data_id data) \<and>
           label \<noteq> 999 \<and> 0 \<le> label \<and>
           nat label < length (fst (input_texts_of shuffle False data g)) \<and>
           fst (input_texts_of shuffle False data g) ! nat label = answer_text data \<and>
           count (mset (fst (input_texts_of shuffle False data g))) (answer_text data) = 1"
proof -
  define opts where "opts = fst (input_texts_of shuffle False data g)"
  have len: "length opts \<le> 52"
    using input_texts_length_le [of False shuffle data g] assms by (simp add: opts_def)
  have mem: "answer_text data \<in> set opts"
    unfolding opts_def by (rule input_texts_train_mem [OF assms])
  have cnt: "count (mset opts) (answer_text data) = 1"
    unfolding opts_def by (rule input_texts_train(3) [OF assms])
  have ce: "fst (create_example shuffle tok False data g) =
      example_of_options tok False data opts"
    by (simp add: create_example_eq opts_def)
  from example_of_options_label [OF len, of False data tok] mem cnt
  show ?thesis unfolding ce opts_def [symmetric] by auto
qed

theorem training_assertion_never_fails_witness:
  "is_shuffle rev_shuffle \<and>
   fst (input_texts_of rev_shuffle False row3 0) = [''b'', ''a'', ''c''] \<and>
   (case fst (create_example rev_shuffle byte_tokenizer False row3 0) of
      Inr (ids, label, did) \<Rightarrow> label = 0 | Inl e \<Rightarrow> False)"
proof -
  have opts: "fst (input_texts_of rev_shuffle False row3 0) = [''b'', ''a'', ''c'']"
    by (simp add: input_texts_of_def row3_def rev_shuffle_def Let_def)
  have a: "answer_text row3 = ''b''" by (simp add: row3_def)
  from training_assertion_never_fails [OF is_shuffle_rev, of byte_tokenizer row3 0]
  obtain ids label where
    r: "fst (create_example rev_shuffle byte_tokenizer False row3 0) =
          Inr (ids, label, data_id row3)"
    and p: "0 \<le> label" "nat label < 3" "[''b'', ''a'', ''c''] ! nat label = ''b''"
    unfolding opts a by auto
  from p(2,3) have "nat label = 0"
    by (cases "nat label = 0"; cases "nat label = 1"; cases "nat label = 2") auto
  with p(1) have "label = 0" by simp
  then show ?thesis unfolding r opts using is_shuffle_rev by simp
qed

text \<open>
  Claim C8: the letters are \<open>A\<close> to \<open>Z\<close> followed by \<open>a\<close> to \<open>z\<close>, and the text that
  \<open>create_example\<close> renders (and then passes through \<open>replace\<close> to the tokenizer) is the
  prompt, the fixed header, one line \<open>letter.text\<close> for every presented option, in order
  and with the letter at the option's position, and last the fixed instruction that asks
  for the correct option. It holds for every test row, and for every training row when
  \<open>random.shuffle\<close> rearranges its list.
\<close>

theorem rendered_prompt_text:
  assumes "is_test \<or> is_shuffle shuffle"
  shows "label_name = ''ABCDEFGHIJKLMNOPQRSTUVWXYZabcdefghijklmnopqrstuvwxyz'' \<and>
         (\<exists>label.
            fst (create_example shuffle tok is_test data g) =
              Inr (tokenizer_call tok
                     (str_replace (eos_token tok) ''<end>''
                        (prompt data @
                         (CHR 0x0A # ''Candidate distractor Analyses:'') @
                         concat (map (\<lambda>(idx, text). [label_name ! idx] @ ''.'' @ text @ [CHR 0x0A])
                                   (enumerate 0 (fst (input_texts_of shuffle is_test data g)))) @
                         ''###Answer###:The option with the correct distractor Analyse is'')) @
                   [eos_token_id tok],
                   label, data_id data))"
proof -
  define opts where "opts = fst (input_texts_of shuffle is_test data g)"
  have "length opts \<le> 25"
    unfolding opts_def by (rule input_texts_length_le [OF assms])
  then have len: "length opts \<le> 52" by simp
  have mem: "is_test \<or> answer_text data \<in> set opts"
  proof (cases is_test)
    case True
    then show ?thesis by simp
  next
    case False
    with assms have "is_shuffle shuffle" by simp
    from input_texts_train_mem [OF this, of data g] False show ?thesis
      by (simp add: opts_def)
  qed
  have ce: "fst (create_example shuffle tok is_test data g) =
      example_of_options tok is_test data opts"
    by (simp add: create_example_eq opts_def)
  have "\<exists>label. example_of_options tok is_test data opts =
      Inr (tokenizer_call tok
             (str_replace (eos_token tok) ''<end>''
                (prompt data @ label_str_0 @
                 concat (map (\<lambda>(idx, text). [label_name ! idx] @ ''.'' @ text @ [CHR 0x0A])
                           (enumerate 0 opts)) @
                 answer_instruction)) @ [eos_token_id tok],
           label, data_id data)"
    unfolding example_of_options_eq [OF len] using mem by auto
  then show ?thesis
    unfolding ce opts_def [symmetric] label_str_0_def answer_instruction_def
    using label_name_literal by simp
qed


theorem rendered_prompt_text_witness:
  "(True \<or> is_shuffle rev_shuffle) \<and>
   map_sum id fst (fst (create_example rev_shuffle byte_tokenizer True row3 0)) =
     Inr (map (\<lambda>c. int (of_char c))
            (''Q?'' @ CHR 0x0A # ''Candidate distractor Analyses:A.a'' @ CHR 0x0A # ''B.b'' @
             CHR 0x0A # ''C.c'' @ CHR 0x0A #
             ''###Answer###:The option with the correct distractor Analyse is'') @ [2])"
proof -
  have h: "True \<or> is_shuffle rev_shuffle" by simp
  have toks: "tokenizer_call byte_tokenizer
      (str_replace (eos_token byte_tokenizer) ''<end>''
         (prompt row3 @
          (CHR 0x0A # ''Candidate distractor Analyses:'') @
          concat (map (\<lambda>(idx, text). [label_name ! idx] @ ''.'' @ text @ [CHR 0x0A])
                    (enumerate 0 (fst (input_texts_of rev_shuffle True row3 0)))) @
          ''###Answer###:The option with the correct distractor Analyse is'')) @
      [eos_token_id byte_tokenizer] =
    map (\<lambda>c. int (of_char c))
      (''Q?'' @ CHR 0x0A # ''Candidate distractor Analyses:A.a'' @ CHR 0x0A # ''B.b'' @
       CHR 0x0A # ''C.c'' @ CHR 0x0A #
       ''###Answer###:The option with the correct distractor Analyse is'') @ [2]"
    by code_simp
  from rendered_prompt_text [OF h, of byte_tokenizer row3 0]
  show ?thesis unfolding toks by auto
qed

text \<open>
  Claim C7: for a non-empty list of instances \<open>collate_fn\<close> returns a batch whose
  \<open>input_ids\<close> rows all have the length of the longest token sequence of the batch, the
  row of an instance being its token sequence followed by the tokenizer's end-of-sequence
  id up to that length, and whose labels and identifiers are those of the instances, in
  their order.
\<close>

theorem collate_fn_pads:
  assumes "instances \<noteq> []"
  shows "\<exists>b. collate_fn tok instances = Inr b \<and>
           batch_input_ids b =
             map (\<lambda>inst. input_ids inst @
                    replicate (Max (set (map (\<lambda>inst. length (input_ids inst)) instances)) -
                               length (input_ids inst)) (eos_token_id tok)) instances \<and>
           map length (batch_input_ids b) =
             replicate (length instances)
               (Max (set (map (\<lambda>inst. length (input_ids inst)) instances))) \<and>
           batch_labels b = map labels instances \<and>
           batch_data_ids b = map data_ids instances"
proof -
  let ?inputs = "map input_ids instances"
  let ?M = "Max (set (map (\<lambda>inst. length (input_ids inst)) instances))"
  have M: "Max (set (map length ?inputs)) = ?M" by (simp add: comp_def)
  have ne: "?inputs \<noteq> []" using assms by simp
  let ?rows = "map (\<lambda>inst. input_ids inst @ replicate (?M - length (input_ids inst))
                  (eos_token_id tok)) instances"
  have pad: "padding ?inputs (eos_token_id tok) = Inr ?rows"
    unfolding padding_rows [OF ne] M by (simp add: comp_def)
  have lens: "map length ?rows = replicate (length instances) ?M"
  proof (rule nth_equalityI)
    show "length (map length ?rows) = length (replicate (length instances) ?M)" by simp
  next
    fix i assume "i < length (map length ?rows)"
    then have i: "i < length instances" by simp
    then have "input_ids (instances ! i) \<in> set ?inputs" by simp
    from padded_row_length [OF this, of "eos_token_id tok"] i
    show "map length ?rows ! i = replicate (length instances) ?M ! i"
      unfolding M by simp
  qed
  show ?thesis
    using assms pad lens by (simp add: collate_fn_def stack_def)
qed

theorem collate_fn_pads_witness:
  "[\<lparr>input_ids = [5, 6, 7], labels = 0, data_ids = 10\<rparr>,
    \<lparr>input_ids = [8], labels = 4, data_ids = 11\<rparr>] \<noteq> [] \<and>
   collate_fn byte_tokenizer
     [\<lparr>input_ids = [5, 6, 7], labels = 0, data_ids = 10\<rparr>,
      \<lparr>input_ids = [8], labels = 4, data_ids = 11\<rparr>] =
     Inr \<lparr>batch_input_ids = [[5, 6, 7], [8, 2, 2]], batch_labels = [0, 4],
          batch_data_ids = [10, 11]\<rparr>"
proof -
  have ne: "[\<lparr>input_ids = [5, 6, 7], labels = 0, data_ids = 10\<rparr>,
             \<lparr>input_ids = [8], labels = 4, data_ids = 11\<rparr>] \<noteq> []" by simp
  from collate_fn_pads [OF ne, of byte_tokenizer]
  show ?thesis by (auto simp: byte_tokenizer_def numeral_3_eq_3)
qed




text \<open>
  Claim C9: what \<open>save_model\<close> writes. With no subdirectory name it writes nothing.
  Otherwise the tokenizer is saved into the subdirectory of the output directory, and on
  rank 0 the file \<open>adapter.bin\<close> is written into the same directory; its entries are
  exactly the entries of the model's state dict whose name contains \<open>lora\<close> or \<open>score\<close>,
  in their order. The names of a state dict are distinct.
\<close>

theorem save_model_adapter_only:
  assumes "distinct (map fst save_dict)"
  shows "save_model args save_dict sub_fold =
           (case sub_fold of
              None \<Rightarrow> []
            | Some sub \<Rightarrow>
                Tokenizer_save_pretrained (path_join (output_dir args) sub) #
                (if global_rank args = 0
                 then [Makedirs (path_join (output_dir args) sub),
                       Torch_save (path_join (path_join (output_dir args) sub) ''adapter.bin'')
                         (filter (\<lambda>(k, v). sublist ''lora'' k \<or> sublist ''score'' k) save_dict)]
                 else [])) \<and>
         (\<forall>path d. Torch_save path d \<in> set (save_model args save_dict sub_fold) \<longrightarrow>
            (\<forall>(k, v) \<in> set d. sublist ''lora'' k \<or> sublist ''score'' k) \<and>
            set d = {(k, v). (k, v) \<in> set save_dict \<and> (sublist ''lora'' k \<or> sublist ''score'' k)} \<and>
            (\<exists>sub. sub_fold = Some sub \<and>
                   path = path_join (path_join (output_dir args) sub) ''adapter.bin'' \<and>
                   Tokenizer_save_pretrained (path_join (output_dir args) sub) \<in>
                     set (save_model args save_dict sub_fold)))"
proof -
  have fd: "final_d_loop save_dict [] =
      filter (\<lambda>(k, v). sublist ''lora'' k \<or> sublist ''score'' k) save_dict"
    using final_d_loop_filter [OF assms, of "[]"] by simp
  have eq: "save_model args save_dict sub_fold =
           (case sub_fold of
              None \<Rightarrow> []
            | Some sub \<Rightarrow>
                Tokenizer_save_pretrained (path_join (output_dir args) sub) #
                (if global_rank args = 0
                 then [Makedirs (path_join (output_dir args) sub),
                       Torch_save (path_join (path_join (output_dir args) sub) ''adapter.bin'')
                         (filter (\<lambda>(k, v). sublist ''lora'' k \<or> sublist ''score'' k) save_dict)]
                 else []))"
    by (simp add: save_model_def fd Let_def split: option.splits)
  have rest: "\<forall>path d. Torch_save path d \<in> set (save_model args save_dict sub_fold) \<longrightarrow>
            (\<forall>(k, v) \<in> set d. sublist ''lora'' k \<or> sublist ''score'' k) \<and>
            set d = {(k, v). (k, v) \<in> set save_dict \<and> (sublist ''lora'' k \<or> sublist ''score'' k)} \<and>
            (\<exists>sub. sub_fold = Some sub \<and>
                   path = path_join (path_join (output_dir args) sub) ''adapter.bin'' \<and>
                   Tokenizer_save_pretrained (path_join (output_dir args) sub) \<in>
                     set (save_model args save_dict sub_fold))"
    unfolding eq by (auto split: option.splits if_splits)
  from eq rest show ?thesis by blast
qed

theorem save_model_adapter_only_witness:
  "distinct (map fst [(''a.lora_A.w'', 1::nat), (''b.weight'', 2), (''score.w'', 3)]) \<and>
   save_model \<lparr>output_dir = ''out'', global_rank = 0\<rparr>
     [(''a.lora_A.w'', 1::nat), (''b.weight'', 2), (''score.w'', 3)] (Some ''epoch_0_model'') =
     [Tokenizer_save_pretrained ''out/epoch_0_model'',
      Makedirs ''out/epoch_0_model'',
      Torch_save ''out/epoch_0_model/adapter.bin'' [(''a.lora_A.w'', 1), (''score.w'', 3)]] \<and>
   Torch_save ''out/epoch_0_model/adapter.bin'' [(''a.lora_A.w'', 1::nat), (''score.w'', 3)] \<in>
     set (save_model \<lparr>output_dir = ''out'', global_rank = 0\<rparr>
            [(''a.lora_A.w'', 1::nat), (''b.weight'', 2), (''score.w'', 3)] (Some ''epoch_0_model''))"
proof -
  have d: "distinct (map fst [(''a.lora_A.w'', 1::nat), (''b.weight'', 2), (''score.w'', 3)])"
    by simp
  have f: "filter (\<lambda>(k, v). sublist ''lora'' k \<or> sublist ''score'' k)
             [(''a.lora_A.w'', 1::nat), (''b.weight'', 2), (''score.w'', 3)] =
           [(''a.lora_A.w'', 1), (''score.w'', 3)]"
    by code_simp
  have p1: "path_join ''out'' ''epoch_0_model'' = ''out/epoch_0_model''"
    and p2: "path_join ''out/epoch_0_model'' ''adapter.bin'' = ''out/epoch_0_model/adapter.bin''"
    by (simp_all add: path_join_def)
  from save_model_adapter_only [OF d, of "\<lparr>output_dir = ''out'', global_rank = 0\<rparr>"
      "Some ''epoch_0_model''", THEN conjunct1]
  have s: "save_model \<lparr>output_dir = ''out'', global_rank = 0\<rparr>
     [(''a.lora_A.w'', 1::nat), (''b.weight'', 2), (''score.w'', 3)] (Some ''epoch_0_model'') =
     [Tokenizer_save_pretrained ''out/epoch_0_model'',
      Makedirs ''out/epoch_0_model'',
      Torch_save ''out/epoch_0_model/adapter.bin'' [(''a.lora_A.w'', 1), (''score.w'', 3)]]"
    unfolding f by (simp add: p1 p2)
  show ?thesis unfolding s using d by simp
qed

text \<open>
  Claim C4, with the order the code gives: from the gathered scores, labels and
  identifiers (columns of one length), \<open>evaluation_dist\<close> keeps of every identifier the
  first row, ranks the options of a row by descending score (the scores do not increase
  along the ranking, and decrease strictly when the scores of the row are pairwise
  distinct; \<open>np.argsort\<close> does not fix the order of options with equal scores), and
  returns the negated mean over the kept rows of \<open>1 / (r + 1)\<close>, \<open>r\<close> the position of the
  label among the first 25 ranked options, or of 0 when the label is not among them:
  the negated mean average precision at 25 with the label as the only relevant item.
\<close>

theorem evaluation_dist_score:
  assumes "length labs = length scores" and "length ids = length scores"
    and "\<forall>p \<in> set scores. is_argsort (map uminus p) (argsort (map uminus p))"
  shows "(let rankings = map (\<lambda>p. map int (argsort (map uminus p))) scores;
              rows = zip ids (zip rankings labs);
              kept = map (\<lambda>j. rows ! j)
                       (filter (\<lambda>j. fst (rows ! j) \<notin> fst ` set (take j rows))
                          [0..<length rows])
          in drop_duplicates rows = kept \<and>
             evaluation_dist argsort scores labs ids =
               Inr (if kept = [] then NaN
                    else Num (- (sum_list
                      (map (\<lambda>(i, r, l). if l \<in> set (take 25 r)
                              then 1 / (real (length (takeWhile (\<lambda>x. x \<noteq> l) r)) + 1) else 0)
                         kept) / real (length kept))))) \<and>
         (\<forall>p \<in> set scores.
            mset (argsort (map uminus p)) = mset [0..<length p] \<and>
            sorted_wrt (\<ge>) (map (\<lambda>j. p ! j) (argsort (map uminus p))) \<and>
            (distinct p \<longrightarrow> sorted_wrt (>) (map (\<lambda>j. p ! j) (argsort (map uminus p)))))"
proof (intro conjI ballI impI)
  define rankings where "rankings = map (\<lambda>p. map int (argsort (map uminus p))) scores"
  define rows where "rows = zip ids (zip rankings labs)"
  define kept where "kept = map (\<lambda>j. rows ! j)
      (filter (\<lambda>j. fst (rows ! j) \<notin> fst ` set (take j rows)) [0..<length rows])"
  have dd: "drop_duplicates rows = kept"
    unfolding kept_def by (rule drop_duplicates_eq)
  have "evaluation_dist argsort scores labs ids =
      (case mapk (map (\<lambda>(i, r, l). [l]) (drop_duplicates rows))
              (map (\<lambda>(i, r, l). r) (drop_duplicates rows)) 25 of
         Inl e \<Rightarrow> Inl e | Inr loss \<Rightarrow> Inr (neg loss))"
    using assms(1,2)
    by (simp add: evaluation_dist_def Let_def rows_def rankings_def)
  then have ev: "evaluation_dist argsort scores labs ids =
      Inr (if kept = [] then NaN
           else Num (- (sum_list
             (map (\<lambda>(i, r, l). if l \<in> set (take 25 r)
                     then 1 / (real (length (takeWhile (\<lambda>x. x \<noteq> l) r)) + 1) else 0)
                kept) / real (length kept))))"
    unfolding dd mapk_rows by (simp add: np_mean_def neg_def)
  from dd ev
  show "let rankings = map (\<lambda>p. map int (argsort (map uminus p))) scores;
            rows = zip ids (zip rankings labs);
            kept = map (\<lambda>j. rows ! j)
                     (filter (\<lambda>j. fst (rows ! j) \<notin> fst ` set (take j rows))
                        [0..<length rows])
        in drop_duplicates rows = kept \<and>
           evaluation_dist argsort scores labs ids =
             Inr (if kept = [] then NaN
                  else Num (- (sum_list
                    (map (\<lambda>(i, r, l). if l \<in> set (take 25 r)
                            then 1 / (real (length (takeWhile (\<lambda>x. x \<noteq> l) r)) + 1) else 0)
                       kept) / real (length kept))))"
    unfolding Let_def rankings_def rows_def kept_def by simp
next
  fix p assume "p \<in> set scores"
  with assms(3) have a: "is_argsort (map uminus p) (argsort (map uminus p))" by blast
  show "mset (argsort (map uminus p)) = mset [0..<length p]"
    by (rule argsort_descending(1) [OF a])
  show "sorted_wrt (\<ge>) (map (\<lambda>j. p ! j) (argsort (map uminus p)))"
    by (rule argsort_descending(2) [OF a])
  show "sorted_wrt (>) (map (\<lambda>j. p ! j) (argsort (map uminus p)))" if "distinct p"
    by (rule argsort_descending(3) [OF a that])
qed



theorem evaluation_dist_score_witness:
  "length [2, 0, 1 :: int] = length [[1, 5, 2], [3, 2, 1], [9, 1, 2 :: real]] \<and>
   length [10, 11, 10 :: int] = length [[1, 5, 2], [3, 2, 1], [9, 1, 2 :: real]] \<and>
   is_argsort (map uminus [1, 5, 2]) (stable_argsort (map uminus [1, 5, 2])) \<and>
   distinct [1, 5, 2 :: real] \<and>
   stable_argsort (map uminus [1, 5, 2]) = [1, 2, 0] \<and>
   sorted_wrt (>) (map (\<lambda>j. [1, 5, 2 :: real] ! j) (stable_argsort (map uminus [1, 5, 2]))) \<and>
   drop_duplicates [(10, [1, 2, 0], 2), (11, [0, 1, 2], 0), (10, [0, 2, 1], 1)] =
     [(10, [1, 2, 0], 2), (11, [0, 1, 2], 0)] \<and>
   evaluation_dist stable_argsort [[1, 5, 2], [3, 2, 1], [9, 1, 2]] [2, 0, 1] [10, 11, 10] =
     Inr (Num (- (3 / 4)))"
proof -
  let ?S = "[[1, 5, 2], [3, 2, 1], [9, 1, 2 :: real]]"
  have l1: "length [2, 0, 1 :: int] = length ?S" and l2: "length [10, 11, 10 :: int] = length ?S"
    by simp_all
  have ok: "\<forall>p \<in> set ?S. is_argsort (map uminus p) (stable_argsort (map uminus p))"
    by (simp add: is_argsort_stable)
  have a1: "stable_argsort (map uminus [1, 5, 2 :: real]) = [1, 2, 0]"
    and a2: "stable_argsort (map uminus [3, 2, 1 :: real]) = [0, 1, 2]"
    and a3: "stable_argsort (map uminus [9, 1, 2 :: real]) = [0, 2, 1]"
    by (simp_all add: stable_argsort_def upt_conv_Cons del: upt_Suc)
  note T = evaluation_dist_score [OF l1 l2 ok, unfolded Let_def]
  have b1: "stable_argsort [- 1, - 5, - 2 :: real] = [1, 2, 0]"
    and b2: "stable_argsort [- 3, - 2, - 1 :: real] = [0, 1, 2]"
    and b3: "stable_argsort [- 9, - 1, - 2 :: real] = [0, 2, 1]"
    by (simp_all add: stable_argsort_def upt_conv_Cons del: upt_Suc)
  have rows: "zip [10, 11, 10 :: int]
      (zip (map (\<lambda>p. map int (stable_argsort (map uminus p))) ?S) [2, 0, 1 :: int]) =
      [(10, [1, 2, 0], 2), (11, [0, 1, 2], 0), (10, [0, 2, 1], 1)]"
    by (simp add: b1 b2 b3)
  have kept: "map (\<lambda>j. [(10 :: int, [1, 2, 0 :: int], 2 :: int), (11, [0, 1, 2], 0),
                          (10, [0, 2, 1], 1)] ! j)
      (filter (\<lambda>j. fst ([(10 :: int, [1, 2, 0 :: int], 2 :: int), (11, [0, 1, 2], 0),
                           (10, [0, 2, 1], 1)] ! j) \<notin>
                    fst ` set (take j [(10 :: int, [1, 2, 0 :: int], 2 :: int), (11, [0, 1, 2], 0),
                                       (10, [0, 2, 1], 1)]))
         [0..<length [(10 :: int, [1, 2, 0 :: int], 2 :: int), (11, [0, 1, 2], 0),
                      (10, [0, 2, 1], 1)]]) =
      [(10, [1, 2, 0], 2), (11, [0, 1, 2], 0)]"
    by (simp add: upt_conv_Cons del: upt_Suc)
  have dd: "drop_duplicates [(10 :: int, [1, 2, 0 :: int], 2 :: int), (11, [0, 1, 2], 0),
                             (10, [0, 2, 1], 1)] =
      [(10, [1, 2, 0], 2), (11, [0, 1, 2], 0)]"
    using T [THEN conjunct1, THEN conjunct1] unfolding rows kept .
  have ev: "evaluation_dist stable_argsort ?S [2, 0, 1] [10, 11, 10] = Inr (Num (- (3 / 4)))"
    using T [THEN conjunct1, THEN conjunct2] unfolding rows kept
    by simp
  have st: "sorted_wrt (>) (map (\<lambda>j. [1, 5, 2 :: real] ! j)
      (stable_argsort (map uminus [1, 5, 2])))"
    using T [THEN conjunct2] by simp
  show ?thesis
    using l1 l2 is_argsort_stable [of "map uminus [1, 5, 2]"] a1 dd ev st b1 by simp
qed

theorem evaluation_dist_tie_counterexample:
  "is_argsort (map uminus [0, 0]) [0, 1] \<and>
   is_argsort (map uminus [0, 0]) [1, 0] \<and>
   stable_argsort (map uminus [0, 0]) = [0, 1] \<and>
   \<not> sorted_wrt (>) (map (\<lambda>j. [0, 0 :: real] ! j) [0, 1]) \<and>
   \<not> sorted_wrt (>) (map (\<lambda>j. [0, 0 :: real] ! j) [1, 0]) \<and>
   evaluation_dist stable_argsort [[0, 0]] [1] [7] = Inr (Num (- (1 / 2)))"
  by (simp add: is_argsort_def evaluation_dist_def drop_duplicates_def mapk_rows np_mean_def
        neg_def stable_argsort_def upt_conv_Cons Let_def del: upt_Suc)

end
